theory Spec2Isabelle
  imports Complex_Main "HOL-Library.Word"
begin

section \<open>Data model\<close>

text \<open>
  An RGBA pixel is the 4-tuple \<open>(r, g, b, a)\<close> of bytes that pixel access returns.
  Coordinates are Python integers (\<open>x - 1\<close> may be negative before it is range-checked);
  the size of an image is a pair of non-negative integers \<open>(w0, h0)\<close>. The pixel buffer
  is a function of the coordinate; only its values at \<open>0 \<le> x < w0\<close>, \<open>0 \<le> y < h0\<close> belong
  to the image, and pixel access never reads or writes another.
\<close>

type_synonym rgba = "8 word \<times> 8 word \<times> 8 word \<times> 8 word"

type_synonym coord = "int \<times> int"

record image =
  isize :: "nat \<times> nat"
  pixels :: "coord \<Rightarrow> rgba"

datatype error =
    IndexError
  | ZeroDivisionError
  | FileNotFoundError string
  | ValueError
  | OSError

text \<open>
  A statement that raises leaves the objects it has mutated so far as they are. A raise is
  therefore \<open>Inl (e, s)\<close>: the exception together with the mutable state at that moment;
  \<open>Inr s\<close> is normal completion.
\<close>

type_synonym 's outcome = "(error \<times> 's) + 's"

subsection \<open>Pixel access and list indexing\<close>

text \<open>
  \<open>px[x, y]\<close> on the imaging library's pixel-access object: a negative index counts from
  the far edge, and a coordinate outside the image raises \<open>IndexError\<close>.
\<close>

definition px_index :: "nat \<times> nat \<Rightarrow> coord \<Rightarrow> error + coord" where
  "px_index sz c =
     (case sz of (w, h) \<Rightarrow> case c of (x, y) \<Rightarrow>
        let x' = (if x < 0 then int w + x else x);
            y' = (if y < 0 then int h + y else y)
        in if 0 \<le> x' \<and> x' < int w \<and> 0 \<le> y' \<and> y' < int h
           then Inr (x', y') else Inl IndexError)"

definition px_get :: "image \<Rightarrow> coord \<Rightarrow> error + rgba" where
  "px_get img c =
     (case px_index (isize img) c of
        Inl e \<Rightarrow> Inl e
      | Inr c' \<Rightarrow> Inr (pixels img c'))"

definition px_set :: "image \<Rightarrow> coord \<Rightarrow> rgba \<Rightarrow> error + image" where
  "px_set img c v =
     (case px_index (isize img) c of
        Inl e \<Rightarrow> Inl e
      | Inr c' \<Rightarrow> Inr (img\<lparr>pixels := (pixels img)(c' := v)\<rparr>))"

text \<open>Python list indexing: a negative index counts from the end, out of range raises.\<close>

definition py_idx :: "nat \<Rightarrow> int \<Rightarrow> error + nat" where
  "py_idx n i =
     (let j = (if i < 0 then int n + i else i)
      in if 0 \<le> j \<and> j < int n then Inr (nat j) else Inl IndexError)"

text \<open>\<open>visited[y][x]\<close> and \<open>visited[y][x] = True\<close> on a list of rows.\<close>

definition vis_get :: "bool list list \<Rightarrow> int \<Rightarrow> int \<Rightarrow> error + bool" where
  "vis_get v y x =
     (case py_idx (length v) y of
        Inl e \<Rightarrow> Inl e
      | Inr j \<Rightarrow>
          (case py_idx (length (v ! j)) x of
             Inl e \<Rightarrow> Inl e
           | Inr i \<Rightarrow> Inr (v ! j ! i)))"

definition vis_set :: "bool list list \<Rightarrow> int \<Rightarrow> int \<Rightarrow> error + bool list list" where
  "vis_set v y x =
     (case py_idx (length v) y of
        Inl e \<Rightarrow> Inl e
      | Inr j \<Rightarrow>
          (case py_idx (length (v ! j)) x of
             Inl e \<Rightarrow> Inl e
           | Inr i \<Rightarrow> Inr (v[j := (v ! j)[i := True]])))"

section \<open>Border-connected transparency removal\<close>

text \<open>The locals of \<open>remove_outer_white_only\<close> that its loops mutate.\<close>

record ff_state =
  glyph :: image
  visited :: "bool list list"
  q :: "coord list"

definition TH :: "8 word" where
  "TH = 245"

text \<open>The white predicate on a pixel value, and \<open>is_white(x, y)\<close>, which reads the pixel.\<close>

definition white_px :: "rgba \<Rightarrow> bool" where
  "white_px p = (case p of (r, g, b, a) \<Rightarrow> a > 0 \<and> r \<ge> TH \<and> g \<ge> TH \<and> b \<ge> TH)"

definition is_white :: "image \<Rightarrow> int \<Rightarrow> int \<Rightarrow> error + bool" where
  "is_white img x y =
     (case px_get img (x, y) of
        Inl e \<Rightarrow> Inl e
      | Inr p \<Rightarrow> Inr (white_px p))"

text \<open>A \<open>for\<close> loop over a list of values; a raise in the body leaves the loop.\<close>

fun for_each :: "('a \<Rightarrow> 's \<Rightarrow> 's outcome) \<Rightarrow> 'a list \<Rightarrow> 's \<Rightarrow> 's outcome" where
  "for_each body [] s = Inr s"
| "for_each body (x # xs) s =
     (case body x s of
        Inl r \<Rightarrow> Inl r
      | Inr s' \<Rightarrow> for_each body xs s')"

text \<open>
  One seeding statement:
  \<open>if is_white(x, y): q.append((x, y)); visited[y][x] = True\<close>.
  It does not look at \<open>visited\<close> before appending.
\<close>

definition seed :: "int \<Rightarrow> int \<Rightarrow> ff_state \<Rightarrow> ff_state outcome" where
  "seed x y s =
     (case is_white (glyph s) x y of
        Inl e \<Rightarrow> Inl (e, s)
      | Inr False \<Rightarrow> Inr s
      | Inr True \<Rightarrow>
          (let s1 = s\<lparr>q := q s @ [(x, y)]\<rparr>
           in (case vis_set (visited s1) y x of
                 Inl e \<Rightarrow> Inl (e, s1)
               | Inr v \<Rightarrow> Inr (s1\<lparr>visited := v\<rparr>))))"

definition seed_column :: "int \<Rightarrow> int \<Rightarrow> ff_state \<Rightarrow> ff_state outcome" where
  "seed_column h0 x s =
     (case seed x 0 s of
        Inl r \<Rightarrow> Inl r
      | Inr s' \<Rightarrow> seed x (h0 - 1) s')"

definition seed_row :: "int \<Rightarrow> int \<Rightarrow> ff_state \<Rightarrow> ff_state outcome" where
  "seed_row w0 y s =
     (case seed 0 y s of
        Inl r \<Rightarrow> Inl r
      | Inr s' \<Rightarrow> seed (w0 - 1) y s')"

text \<open>The two seeding loops, \<open>for x in range(w0)\<close> and \<open>for y in range(h0)\<close>.\<close>

definition seed_borders :: "ff_state \<Rightarrow> ff_state outcome" where
  "seed_borders s =
     (case isize (glyph s) of (w0, h0) \<Rightarrow>
        (case for_each (seed_column (int h0)) (map int [0..<w0]) s of
           Inl r \<Rightarrow> Inl r
         | Inr s' \<Rightarrow> for_each (seed_row (int w0)) (map int [0..<h0]) s'))"

text \<open>
  The body of the inner loop over the four neighbours: the range test short-circuits
  before \<open>visited[ny][nx]\<close> is read; a white unvisited neighbour is marked, then appended.
\<close>

definition neighbour :: "coord \<Rightarrow> ff_state \<Rightarrow> ff_state outcome" where
  "neighbour n s =
     (case n of (nx, ny) \<Rightarrow> case isize (glyph s) of (w0, h0) \<Rightarrow>
        if 0 \<le> nx \<and> nx < int w0 \<and> 0 \<le> ny \<and> ny < int h0 then
          (case vis_get (visited s) ny nx of
             Inl e \<Rightarrow> Inl (e, s)
           | Inr True \<Rightarrow> Inr s
           | Inr False \<Rightarrow>
               (case is_white (glyph s) nx ny of
                  Inl e \<Rightarrow> Inl (e, s)
                | Inr False \<Rightarrow> Inr s
                | Inr True \<Rightarrow>
                    (case vis_set (visited s) ny nx of
                       Inl e \<Rightarrow> Inl (e, s)
                     | Inr v \<Rightarrow> Inr (s\<lparr>visited := v, q := q s @ [(nx, ny)]\<rparr>))))
        else Inr s)"

text \<open>
  One iteration of \<open>while q\<close>: pop the head, set its alpha to zero keeping the colour
  channels, look at the four neighbours in the source's order.
\<close>

definition process :: "ff_state \<Rightarrow> ff_state outcome" where
  "process s =
     (case q s of
        [] \<Rightarrow> Inl (IndexError, s)
      | c # rest \<Rightarrow>
          (case c of (x, y) \<Rightarrow>
             let s1 = s\<lparr>q := rest\<rparr>
             in (case px_get (glyph s1) (x, y) of
                   Inl e \<Rightarrow> Inl (e, s1)
                 | Inr p \<Rightarrow>
                     (case p of (r, g, b, a) \<Rightarrow>
                        (case px_set (glyph s1) (x, y) (r, g, b, 0) of
                           Inl e \<Rightarrow> Inl (e, s1)
                         | Inr im \<Rightarrow>
                             for_each neighbour
                               [(x - 1, y), (x + 1, y), (x, y - 1), (x, y + 1)]
                               (s1\<lparr>glyph := im\<rparr>))))))"

text \<open>What bounds the loop: unvisited cells of the \<open>visited\<close> table, and the queue.\<close>

definition unvisited :: "bool list list \<Rightarrow> nat" where
  "unvisited v = sum_list (map (\<lambda>row. length (filter Not row)) v)"

definition budget :: "ff_state \<Rightarrow> nat" where
  "budget s = 2 * unvisited (visited s) + length (q s)"

lemma filter_Not_update:
  "i < length row \<Longrightarrow> \<not> row ! i \<Longrightarrow>
     Suc (length (filter Not (row[i := True]))) = length (filter Not row)"
proof (induction row arbitrary: i)
  case Nil
  then show ?case by simp
next
  case (Cons b row)
  then show ?case by (cases i) auto
qed

lemma unvisited_update:
  "j < length v \<Longrightarrow> i < length (v ! j) \<Longrightarrow> \<not> v ! j ! i \<Longrightarrow>
     Suc (unvisited (v[j := (v ! j)[i := True]])) = unvisited v"
proof (induction v arbitrary: j)
  case Nil
  then show ?case by simp
next
  case (Cons row v)
  show ?case
  proof (cases j)
    case 0
    with Cons.prems show ?thesis
      using filter_Not_update [of i row] by (simp add: unvisited_def)
  next
    case (Suc k)
    with Cons.prems Cons.IH [of k] show ?thesis
      by (simp add: unvisited_def)
  qed
qed

lemma py_idx_Inr: "py_idx n i = Inr j \<Longrightarrow> j < n"
  by (auto simp: py_idx_def Let_def split: if_splits)

lemma vis_mark_unvisited:
  "vis_get v y x = Inr False \<Longrightarrow> vis_set v y x = Inr v' \<Longrightarrow> Suc (unvisited v') = unvisited v"
  by (auto simp: vis_get_def vis_set_def split: sum.splits dest!: py_idx_Inr intro: unvisited_update)

lemma neighbour_budget: "neighbour n s = Inr s' \<Longrightarrow> budget s' \<le> budget s"
  by (auto simp: neighbour_def budget_def split: prod.splits if_splits sum.splits bool.splits
      dest: vis_mark_unvisited)

lemma for_each_neighbour_budget:
  "for_each neighbour ns s = Inr s' \<Longrightarrow> budget s' \<le> budget s"
proof (induction ns arbitrary: s)
  case Nil
  then show ?case by simp
next
  case (Cons n ns)
  then show ?case
    by (auto split: sum.splits dest!: neighbour_budget) fastforce
qed

lemma process_budget:
  assumes "process s = Inr s'"
  shows "budget s' < budget s"
proof -
  from assms obtain c rest im where
    qs: "q s = c # rest" and
    loop: "for_each neighbour [(fst c - 1, snd c), (fst c + 1, snd c), (fst c, snd c - 1), (fst c, snd c + 1)]
             (s\<lparr>q := rest, glyph := im\<rparr>) = Inr s'"
    by (auto simp: process_def Let_def simp del: for_each.simps
        split: list.splits prod.splits sum.splits)
  from for_each_neighbour_budget [OF loop] qs show ?thesis
    by (simp add: budget_def)
qed

text \<open>The loop \<open>while q\<close>. It ends because every iteration lowers the budget.\<close>

function bfs :: "ff_state \<Rightarrow> ff_state outcome" where
  "bfs s =
     (if q s = [] then Inr s
      else case process s of
             Inl r \<Rightarrow> Inl r
           | Inr s' \<Rightarrow> bfs s')"
  by pat_completeness auto
termination
  by (relation "measure budget") (auto dest: process_budget)

declare bfs.simps [simp del]

text \<open>
  The coordinates the loop dequeues, in order: the same recursion as \<open>bfs\<close>, recording
  the head of the queue at every iteration.
\<close>

function bfs_trace :: "ff_state \<Rightarrow> coord list" where
  "bfs_trace s =
     (if q s = [] then []
      else hd (q s) #
        (case process s of
           Inl r \<Rightarrow> []
         | Inr s' \<Rightarrow> bfs_trace s'))"
  by pat_completeness auto
termination
  by (relation "measure budget") (auto dest: process_budget)

declare bfs_trace.simps [simp del]

text \<open>
  \<open>remove_outer_white_only\<close>: the image is mutated in place and returned; when a
  statement raises, the exception comes with the image as it is then. The table
  \<open>visited\<close> starts as \<open>h0\<close> separate rows of \<open>w0\<close> cells, the queue empty.
\<close>

definition initial :: "image \<Rightarrow> ff_state" where
  "initial g =
     (case isize g of (w0, h0) \<Rightarrow>
        \<lparr>glyph = g, visited = replicate h0 (replicate w0 False), q = []\<rparr>)"

definition remove_outer_white_only :: "image \<Rightarrow> image outcome" where
  "remove_outer_white_only g =
     (case seed_borders (initial g) of
        Inl (e, s) \<Rightarrow> Inl (e, glyph s)
      | Inr s1 \<Rightarrow>
          (case bfs s1 of
             Inl (e, s) \<Rightarrow> Inl (e, glyph s)
           | Inr s2 \<Rightarrow> Inr (glyph s2)))"

text \<open>The image object after a call, whether the call returned or raised.\<close>

definition final :: "image outcome \<Rightarrow> image" where
  "final r = (case r of Inl (e, g) \<Rightarrow> g | Inr g \<Rightarrow> g)"

text \<open>The coordinates dequeued by the flood fill of an image.\<close>

definition dequeued :: "image \<Rightarrow> coord list" where
  "dequeued g =
     (case seed_borders (initial g) of
        Inl r \<Rightarrow> []
      | Inr s1 \<Rightarrow> bfs_trace s1)"

subsection \<open>Vocabulary of the properties\<close>

definition in_image :: "image \<Rightarrow> coord \<Rightarrow> bool" where
  "in_image g c =
     (case isize g of (w, h) \<Rightarrow> case c of (x, y) \<Rightarrow>
        0 \<le> x \<and> x < int w \<and> 0 \<le> y \<and> y < int h)"

definition on_border :: "image \<Rightarrow> coord \<Rightarrow> bool" where
  "on_border g c =
     (case isize g of (w, h) \<Rightarrow> case c of (x, y) \<Rightarrow>
        in_image g c \<and> (x = 0 \<or> y = 0 \<or> x = int w - 1 \<or> y = int h - 1))"

definition white :: "image \<Rightarrow> coord \<Rightarrow> bool" where
  "white g c = white_px (pixels g c)"

definition alpha :: "rgba \<Rightarrow> 8 word" where
  "alpha p = (case p of (r, g, b, a) \<Rightarrow> a)"

definition rgb :: "rgba \<Rightarrow> 8 word \<times> 8 word \<times> 8 word" where
  "rgb p = (case p of (r, g, b, a) \<Rightarrow> (r, g, b))"

definition clear :: "rgba \<Rightarrow> rgba" where
  "clear p = (case p of (r, g, b, a) \<Rightarrow> (r, g, b, 0))"

definition adjacent :: "coord \<Rightarrow> coord \<Rightarrow> bool" where
  "adjacent c d =
     (case c of (x, y) \<Rightarrow> case d of (x', y') \<Rightarrow>
        (y = y' \<and> (x = x' - 1 \<or> x = x' + 1)) \<or> (x = x' \<and> (y = y' - 1 \<or> y = y' + 1)))"

text \<open>
  \<open>border_path g (c # p)\<close>: the list is a 4-connected path of white pixels of the image
  that starts at \<open>c\<close> and ends on the border.
\<close>

fun border_path :: "image \<Rightarrow> coord list \<Rightarrow> bool" where
  "border_path g [] = False"
| "border_path g [c] = (on_border g c \<and> white g c)"
| "border_path g (c # d # p) =
     (in_image g c \<and> white g c \<and> adjacent c d \<and> border_path g (d # p))"

subsection \<open>Invariants of the flood fill\<close>

text \<open>
  \<open>shaped\<close>: the \<open>visited\<close> table has \<open>h0\<close> rows of \<open>w0\<close> cells.
  \<open>connected\<close>: a pixel is joined to the border by a path of white pixels.
  \<open>frame\<close>: an image differs from another at most by alpha channels set to zero.
  \<open>inv\<close>: what every iteration of \<open>while q\<close> keeps, relative to the image \<open>g0\<close> at entry.
\<close>

definition shaped :: "nat \<times> nat \<Rightarrow> bool list list \<Rightarrow> bool" where
  "shaped sz v = (case sz of (w, h) \<Rightarrow> length v = h \<and> (\<forall>row \<in> set v. length row = w))"

definition connected :: "image \<Rightarrow> coord \<Rightarrow> bool" where
  "connected g c = (\<exists>p. border_path g (c # p))"

definition frame :: "image \<Rightarrow> image \<Rightarrow> bool" where
  "frame g g' =
     (isize g' = isize g \<and>
      (\<forall>c. pixels g' c = pixels g c \<or> pixels g' c = clear (pixels g c)))"

definition inv :: "image \<Rightarrow> ff_state \<Rightarrow> bool" where
  "inv g0 s =
     (frame g0 (glyph s) \<and> shaped (isize g0) (visited s) \<and>
      (\<forall>c \<in> set (q s). in_image g0 c \<and> connected g0 c) \<and>
      (\<forall>c. pixels (glyph s) c \<noteq> pixels g0 c \<longrightarrow> connected g0 c))"

lemma px_index_in: "in_image g c \<Longrightarrow> px_index (isize g) c = Inr c"
  by (auto simp: in_image_def px_index_def split: prod.splits)

lemma px_get_in: "in_image g c \<Longrightarrow> px_get g c = Inr (pixels g c)"
  by (simp add: px_get_def px_index_in)

lemma px_set_in:
  "in_image g c \<Longrightarrow> px_set g c v = Inr (g\<lparr>pixels := (pixels g)(c := v)\<rparr>)"
  by (simp add: px_set_def px_index_in)

lemma is_white_in: "in_image g (x, y) \<Longrightarrow> is_white g x y = Inr (white g (x, y))"
  by (simp add: is_white_def px_get_in white_def)

lemma py_idx_in: "0 \<le> i \<Longrightarrow> i < int n \<Longrightarrow> py_idx n i = Inr (nat i)"
  by (simp add: py_idx_def)

lemma shaped_row: "shaped (w, h) v \<Longrightarrow> j < h \<Longrightarrow> length (v ! j) = w"
  by (simp add: shaped_def)

lemma vis_get_in:
  "shaped (w, h) v \<Longrightarrow> 0 \<le> x \<Longrightarrow> x < int w \<Longrightarrow> 0 \<le> y \<Longrightarrow> y < int h \<Longrightarrow>
     vis_get v y x = Inr (v ! nat y ! nat x)"
  using shaped_row [of w h v "nat y"]
  by (simp add: vis_get_def py_idx_in shaped_def)

lemma vis_set_in:
  "shaped (w, h) v \<Longrightarrow> 0 \<le> x \<Longrightarrow> x < int w \<Longrightarrow> 0 \<le> y \<Longrightarrow> y < int h \<Longrightarrow>
     vis_set v y x = Inr (v[nat y := (v ! nat y)[nat x := True]])"
  using shaped_row [of w h v "nat y"]
  by (simp add: vis_set_def py_idx_in shaped_def)

lemma shaped_update:
  "shaped (w, h) v \<Longrightarrow> j < h \<Longrightarrow> shaped (w, h) (v[j := (v ! j)[i := True]])"
  by (auto simp: shaped_def dest!: set_update_subset_insert [THEN subsetD])

lemma shaped_initial: "shaped (w, h) (replicate h (replicate w False))"
  by (simp add: shaped_def)

lemma white_clear: "\<not> white_px (clear p)"
  by (cases p) (simp add: white_px_def clear_def)

lemma clear_clear: "clear (clear p) = clear p"
  by (cases p) (simp add: clear_def)

lemma frame_refl: "frame g g"
  by (simp add: frame_def)

lemma frame_trans: "frame g g' \<Longrightarrow> frame g' g'' \<Longrightarrow> frame g g''"
  unfolding frame_def by (metis clear_clear)

lemma frame_white: "frame g g' \<Longrightarrow> white g' c \<Longrightarrow> white g c"
  unfolding frame_def white_def by (metis white_clear)

lemma frame_in_image: "frame g g' \<Longrightarrow> in_image g' c = in_image g c"
  by (simp add: frame_def in_image_def)

lemma connected_border: "on_border g c \<Longrightarrow> white g c \<Longrightarrow> connected g c"
  unfolding connected_def by (rule exI [of _ "[]"]) simp

lemma connected_step:
  "connected g d \<Longrightarrow> adjacent c d \<Longrightarrow> in_image g c \<Longrightarrow> white g c \<Longrightarrow> connected g c"
  unfolding connected_def by (metis border_path.simps(3))


lemma alpha_clear: "alpha (clear p) = 0"
  by (cases p) (simp add: alpha_def clear_def)

lemma frame_alpha:
  "frame g g' \<Longrightarrow> alpha (pixels g c) = 0 \<Longrightarrow> alpha (pixels g' c) = 0"
  unfolding frame_def by (metis alpha_clear)

lemma frame_clear_one: "frame g (g\<lparr>pixels := (pixels g)(c := clear (pixels g c))\<rparr>)"
  by (simp add: frame_def)

lemma for_each_inv:
  assumes "\<And>x s. x \<in> set xs \<Longrightarrow> P s \<Longrightarrow> \<exists>s'. body x s = Inr s' \<and> P s'"
    and "P s"
  shows "\<exists>s'. for_each body xs s = Inr s' \<and> P s'"
  using assms
proof (induction xs arbitrary: s)
  case Nil
  then show ?case by simp
next
  case (Cons x xs)
  from Cons.prems obtain s1 where s1: "body x s = Inr s1" "P s1"
    by (meson list.set_intros(1))
  from Cons.IH [of s1] Cons.prems(1) s1(2)
  obtain s' where "for_each body xs s1 = Inr s'" "P s'"
    by (meson list.set_intros(2))
  with s1 show ?case by simp
qed

lemma neighbour_inv:
  assumes inv: "inv g0 s" and conn: "connected g0 c" and adj: "adjacent n c"
  shows "\<exists>s'. neighbour n s = Inr s' \<and> inv g0 s' \<and> glyph s' = glyph s \<and>
               set (q s) \<subseteq> set (q s')"
proof -
  obtain nx ny where n: "n = (nx, ny)" by (cases n)
  obtain w0 h0 where sz: "isize g0 = (w0, h0)" by (cases "isize g0")
  from inv have fr: "frame g0 (glyph s)" and sh: "shaped (w0, h0) (visited s)"
    by (simp_all add: inv_def sz)
  from fr sz have sz': "isize (glyph s) = (w0, h0)" by (simp add: frame_def)
  show ?thesis
  proof (cases "0 \<le> nx \<and> nx < int w0 \<and> 0 \<le> ny \<and> ny < int h0")
    case False
    with inv show ?thesis by (auto simp: neighbour_def n sz')
  next
    case True
    then have rng: "0 \<le> nx" "nx < int w0" "0 \<le> ny" "ny < int h0" by simp_all
    then have img: "in_image (glyph s) n" and img0: "in_image g0 n"
      by (simp_all add: in_image_def n sz sz')
    note vg = vis_get_in [OF sh rng] and vs = vis_set_in [OF sh rng]
    note iw = is_white_in [OF img [unfolded n]]
    show ?thesis
    proof (cases "\<not> visited s ! nat ny ! nat nx \<and> white (glyph s) (nx, ny)")
      case False
      with inv True show ?thesis
        by (cases "visited s ! nat ny ! nat nx") (auto simp: neighbour_def n sz' vg iw)
    next
      case fresh: True
      let ?s' = "s\<lparr>visited := (visited s)[nat ny := (visited s ! nat ny)[nat nx := True]],
                    q := q s @ [(nx, ny)]\<rparr>"
      from fresh True have step: "neighbour n s = Inr ?s'"
        by (simp add: neighbour_def n sz' vg iw vs)
      from fresh fr have "white g0 n" by (auto simp: n dest: frame_white)
      with conn adj img0 have cn: "connected g0 n" by (blast intro: connected_step)
      from rng have "nat ny < h0" by simp
      with sh have "shaped (w0, h0) ((visited s)[nat ny := (visited s ! nat ny)[nat nx := True]])"
        by (rule shaped_update)
      with inv cn img0 have "inv g0 ?s'"
        by (simp add: inv_def sz n)
      with step show ?thesis by auto
    qed
  qed
qed

lemma process_inv:
  assumes inv: "inv g0 s" and qs: "q s = c # rest"
  shows "\<exists>s'. process s = Inr s' \<and> inv g0 s' \<and>
               glyph s' = (glyph s)\<lparr>pixels := (pixels (glyph s))(c := clear (pixels (glyph s) c))\<rparr> \<and>
               set rest \<subseteq> set (q s')"
proof -
  obtain x y where c: "c = (x, y)" by (cases c)
  let ?im = "(glyph s)\<lparr>pixels := (pixels (glyph s))(c := clear (pixels (glyph s) c))\<rparr>"
  let ?s2 = "s\<lparr>q := rest, glyph := ?im\<rparr>"
  let ?ns = "[(x - 1, y), (x + 1, y), (x, y - 1), (x, y + 1)]"
  from inv qs have c0: "in_image g0 c" "connected g0 c"
    by (simp_all add: inv_def)
  from inv have fr: "frame g0 (glyph s)" by (simp add: inv_def)
  with c0 have cin: "in_image (glyph s) c" by (simp add: frame_in_image)
  have step: "process s = for_each neighbour ?ns ?s2"
    using px_get_in [OF cin] px_set_in [OF cin]
    by (cases "pixels (glyph s) (x, y)")
       (simp add: process_def qs c clear_def del: for_each.simps)
  from fr frame_clear_one [of "glyph s" c] have fr2: "frame g0 ?im"
    by (rule frame_trans)
  have chg: "pixels ?im d \<noteq> pixels g0 d \<longrightarrow> connected g0 d" for d
  proof (cases "d = c")
    case True
    with c0 show ?thesis by simp
  next
    case False
    with inv show ?thesis by (cases d) (auto simp: inv_def)
  qed
  from inv qs fr2 chg have inv2: "inv g0 ?s2"
    by (simp add: inv_def)
  define P where "P t \<longleftrightarrow> inv g0 t \<and> glyph t = ?im \<and> set rest \<subseteq> set (q t)" for t
  have "\<exists>s'. for_each neighbour ?ns ?s2 = Inr s' \<and> P s'"
  proof (rule for_each_inv)
    show "P ?s2" using inv2 by (simp add: P_def)
  next
    fix n t
    assume n: "n \<in> set ?ns" and t: "P t"
    from n have "adjacent n c" by (auto simp: adjacent_def c)
    from neighbour_inv [OF _ c0(2) this, of t] t
    show "\<exists>s'. neighbour n t = Inr s' \<and> P s'"
      by (auto simp: P_def)
  qed
  with step show ?thesis by (auto simp: P_def)
qed

lemma bfs_inv:
  "inv g0 s \<Longrightarrow>
     \<exists>s'. bfs s = Inr s' \<and> inv g0 s' \<and> frame (glyph s) (glyph s') \<and>
          (\<forall>c \<in> set (q s). alpha (pixels (glyph s') c) = 0)"
proof (induction s rule: bfs.induct)
  case (1 s)
  show ?case
  proof (cases "q s")
    case Nil
    then have "bfs s = Inr s" by (subst bfs.simps) simp
    with "1.prems" Nil show ?thesis by (simp add: frame_refl)
  next
    case (Cons c rest)
    let ?im = "(glyph s)\<lparr>pixels := (pixels (glyph s))(c := clear (pixels (glyph s) c))\<rparr>"
    from process_inv [OF "1.prems" Cons] obtain s1 where
      s1: "process s = Inr s1" "inv g0 s1" "glyph s1 = ?im" "set rest \<subseteq> set (q s1)"
      by blast
    from Cons have ne: "q s \<noteq> []" by simp
    from "1.IH" [OF ne s1(1) s1(2)] obtain s' where
      s': "bfs s1 = Inr s'" "inv g0 s'" "frame (glyph s1) (glyph s')"
          "\<forall>d \<in> set (q s1). alpha (pixels (glyph s') d) = 0"
      by blast
    have run: "bfs s = Inr s'"
      using ne s1(1) s'(1) by (subst bfs.simps) simp
    have "frame (glyph s) (glyph s1)"
      unfolding s1(3) by (rule frame_clear_one)
    then have fr: "frame (glyph s) (glyph s')"
      using s'(3) by (rule frame_trans)
    have "alpha (pixels (glyph s1) c) = 0"
      by (simp add: s1(3) alpha_clear)
    with s'(3) have "alpha (pixels (glyph s') c) = 0"
      by (rule frame_alpha)
    with s'(4) s1(4) have "\<forall>d \<in> set (q s). alpha (pixels (glyph s') d) = 0"
      by (auto simp: Cons)
    with run s'(2) fr show ?thesis by blast
  qed
qed


lemma for_each_collect:
  assumes "\<And>x s. x \<in> set xs \<Longrightarrow> P s \<Longrightarrow> \<exists>s'. body x s = Inr s' \<and> P s' \<and> f s' = f s \<union> A x"
    and "P s"
  shows "\<exists>s'. for_each body xs s = Inr s' \<and> P s' \<and> f s' = f s \<union> (\<Union>x \<in> set xs. A x)"
  using assms
proof (induction xs arbitrary: s)
  case Nil
  then show ?case by simp
next
  case (Cons x xs)
  from Cons.prems obtain s1 where s1: "body x s = Inr s1" "P s1" "f s1 = f s \<union> A x"
    by (meson list.set_intros(1))
  from Cons.IH [of s1] Cons.prems(1) s1(2)
  obtain s' where "for_each body xs s1 = Inr s'" "P s'" "f s' = f s1 \<union> (\<Union>x \<in> set xs. A x)"
    by (meson list.set_intros(2))
  with s1 show ?case by auto
qed

definition seeding :: "image \<Rightarrow> ff_state \<Rightarrow> bool" where
  "seeding g s = (glyph s = g \<and> shaped (isize g) (visited s))"

lemma seed_ok:
  assumes "seeding g s" and "in_image g (x, y)"
  shows "\<exists>s'. seed x y s = Inr s' \<and> seeding g s' \<and>
               set (q s') = set (q s) \<union> {c. c = (x, y) \<and> white g c}"
proof -
  obtain w0 h0 where sz: "isize g = (w0, h0)" by (cases "isize g")
  from assms have g: "glyph s = g" and sh: "shaped (w0, h0) (visited s)"
    by (simp_all add: seeding_def sz)
  from assms(2) have rng: "0 \<le> x" "x < int w0" "0 \<le> y" "y < int h0"
    by (simp_all add: in_image_def sz)
  note vs = vis_set_in [OF sh rng]
  from rng have "nat y < h0" by simp
  with sh have "shaped (w0, h0) ((visited s)[nat y := (visited s ! nat y)[nat x := True]])"
    by (rule shaped_update)
  then show ?thesis
    using g sh is_white_in [OF assms(2)]
    by (cases "white g (x, y)") (auto simp: seed_def vs seeding_def sz)
qed

lemma seed_column_ok:
  assumes "seeding g s" and "isize g = (w0, h0)" and "0 < h0" and "0 \<le> x" and "x < int w0"
  shows "\<exists>s'. seed_column (int h0) x s = Inr s' \<and> seeding g s' \<and>
               set (q s') = set (q s) \<union> {c. (c = (x, 0) \<or> c = (x, int h0 - 1)) \<and> white g c}"
proof -
  from assms have i1: "in_image g (x, 0)" and i2: "in_image g (x, int h0 - 1)"
    by (simp_all add: in_image_def)
  from seed_ok [OF assms(1) i1] obtain s1 where
    s1: "seed x 0 s = Inr s1" "seeding g s1" "set (q s1) = set (q s) \<union> {c. c = (x, 0) \<and> white g c}"
    by blast
  from seed_ok [OF s1(2) i2] obtain s2 where
    s2: "seed x (int h0 - 1) s1 = Inr s2" "seeding g s2"
        "set (q s2) = set (q s1) \<union> {c. c = (x, int h0 - 1) \<and> white g c}"
    by blast
  from s1 s2 show ?thesis
    by (auto simp: seed_column_def)
qed

lemma seed_row_ok:
  assumes "seeding g s" and "isize g = (w0, h0)" and "0 < w0" and "0 \<le> y" and "y < int h0"
  shows "\<exists>s'. seed_row (int w0) y s = Inr s' \<and> seeding g s' \<and>
               set (q s') = set (q s) \<union> {c. (c = (0, y) \<or> c = (int w0 - 1, y)) \<and> white g c}"
proof -
  from assms have i1: "in_image g (0, y)" and i2: "in_image g (int w0 - 1, y)"
    by (simp_all add: in_image_def)
  from seed_ok [OF assms(1) i1] obtain s1 where
    s1: "seed 0 y s = Inr s1" "seeding g s1" "set (q s1) = set (q s) \<union> {c. c = (0, y) \<and> white g c}"
    by blast
  from seed_ok [OF s1(2) i2] obtain s2 where
    s2: "seed (int w0 - 1) y s1 = Inr s2" "seeding g s2"
        "set (q s2) = set (q s1) \<union> {c. c = (int w0 - 1, y) \<and> white g c}"
    by blast
  from s1 s2 show ?thesis
    by (auto simp: seed_row_def)
qed

lemma seeding_initial: "seeding g (initial g)"
  by (cases "isize g") (simp add: seeding_def initial_def shaped_initial)

lemma set_range: "set (map int [0..<n]) = {i. 0 \<le> i \<and> i < int n}"
proof (rule set_eqI)
  fix i
  have "0 \<le> i \<and> i < int n \<Longrightarrow> i \<in> int ` {0..<n}"
    by (rule image_eqI [of _ _ "nat i"]) auto
  then show "i \<in> set (map int [0..<n]) \<longleftrightarrow> i \<in> {i. 0 \<le> i \<and> i < int n}"
    by auto
qed

lemma seed_borders_ok:
  assumes sz: "isize g = (w0, h0)" and pos: "0 < w0" "0 < h0"
  shows "\<exists>s'. seed_borders (initial g) = Inr s' \<and> seeding g s' \<and>
               set (q s') = {c. on_border g c \<and> white g c}"
proof -
  let ?A = "\<lambda>x. {c. (c = (x, 0) \<or> c = (x, int h0 - 1)) \<and> white g c}"
  let ?B = "\<lambda>y. {c. (c = (0, y) \<or> c = (int w0 - 1, y)) \<and> white g c}"
  have "\<exists>s'. for_each (seed_column (int h0)) (map int [0..<w0]) (initial g) = Inr s' \<and>
          seeding g s' \<and>
          set (q s') = set (q (initial g)) \<union> (\<Union>x \<in> set (map int [0..<w0]). ?A x)"
    by (rule for_each_collect [where f = "\<lambda>s. set (q s)"])
       (auto intro!: seed_column_ok [OF _ sz pos(2)] seeding_initial)
  then obtain s1 where s1: "for_each (seed_column (int h0)) (map int [0..<w0]) (initial g) = Inr s1"
    "seeding g s1" "set (q s1) = (\<Union>x \<in> set (map int [0..<w0]). ?A x)"
    by (auto simp: initial_def sz)
  have "\<exists>s'. for_each (seed_row (int w0)) (map int [0..<h0]) s1 = Inr s' \<and>
          seeding g s' \<and>
          set (q s') = set (q s1) \<union> (\<Union>y \<in> set (map int [0..<h0]). ?B y)"
    by (rule for_each_collect [where f = "\<lambda>s. set (q s)"])
       (auto intro!: seed_row_ok [OF _ sz pos(1)] s1(2))
  then obtain s2 where s2: "for_each (seed_row (int w0)) (map int [0..<h0]) s1 = Inr s2"
    "seeding g s2" "set (q s2) = set (q s1) \<union> (\<Union>y \<in> set (map int [0..<h0]). ?B y)"
    by blast
  have run: "seed_borders (initial g) = Inr s2"
    using s1(1) s2(1) by (simp add: seed_borders_def initial_def sz)
  have "set (q s2) = {c. on_border g c \<and> white g c}"
    using pos unfolding s2(3) s1(3) set_range
    by (auto simp: on_border_def in_image_def sz)
  with run s2(2) show ?thesis by blast
qed


lemma seeding_inv:
  assumes "seeding g s" and "set (q s) = {c. on_border g c \<and> white g c}"
  shows "inv g s"
proof -
  have "on_border g c \<Longrightarrow> in_image g c" for c
    by (auto simp: on_border_def split: prod.splits)
  with assms show ?thesis
    by (auto simp: inv_def seeding_def frame_refl intro: connected_border)
qed

lemma remove_ok:
  assumes sz: "isize g = (w0, h0)" and pos: "0 < w0" "0 < h0"
  shows "\<exists>g'. remove_outer_white_only g = Inr g' \<and> frame g g' \<and>
               (\<forall>c. pixels g' c \<noteq> pixels g c \<longrightarrow> connected g c) \<and>
               (\<forall>c. on_border g c \<and> white g c \<longrightarrow> alpha (pixels g' c) = 0)"
proof -
  from seed_borders_ok [OF sz pos] obtain s1 where
    s1: "seed_borders (initial g) = Inr s1" "seeding g s1"
        "set (q s1) = {c. on_border g c \<and> white g c}"
    by blast
  from s1(2,3) have "inv g s1" by (rule seeding_inv)
  from bfs_inv [OF this] obtain s2 where
    s2: "bfs s1 = Inr s2" "inv g s2" "\<forall>c \<in> set (q s1). alpha (pixels (glyph s2) c) = 0"
    by blast
  have "remove_outer_white_only g = Inr (glyph s2)"
    by (simp add: remove_outer_white_only_def s1(1) s2(1))
  moreover from s2(2) have "frame g (glyph s2)"
    and "\<forall>c. pixels (glyph s2) c \<noteq> pixels g c \<longrightarrow> connected g c"
    by (simp_all add: inv_def)
  moreover from s2(3) have "\<forall>c. on_border g c \<and> white g c \<longrightarrow> alpha (pixels (glyph s2) c) = 0"
    by (simp add: s1(3))
  ultimately show ?thesis by blast
qed

lemma remove_no_seed:
  assumes sz: "isize g = (w0, h0)" and pos: "0 < w0" "0 < h0"
    and none: "\<And>c. on_border g c \<Longrightarrow> \<not> white g c"
  shows "remove_outer_white_only g = Inr g"
proof -
  from seed_borders_ok [OF sz pos] obtain s1 where
    s1: "seed_borders (initial g) = Inr s1" "seeding g s1"
        "set (q s1) = {c. on_border g c \<and> white g c}"
    by blast
  from s1(3) none have "set (q s1) = {}" by auto
  then have "q s1 = []" by simp
  then have "bfs s1 = Inr s1" by (subst bfs.simps) simp
  with s1 show ?thesis
    by (simp add: remove_outer_white_only_def seeding_def)
qed

lemma px_get_empty_row: "px_get g (0, 0) = Inl IndexError" if "isize g = (w0, 0)"
  using that by (simp add: px_get_def px_index_def)

lemma px_get_empty_column: "px_get g (0, 0) = Inl IndexError" if "isize g = (0, h0)"
  using that by (simp add: px_get_def px_index_def)

lemma remove_degenerate:
  assumes sz: "isize g = (w0, h0)" and deg: "(w0 = 0) \<noteq> (h0 = 0)"
  shows "remove_outer_white_only g = Inl (IndexError, g)"
proof (cases "h0 = 0")
  case True
  with deg have w: "0 < w0" by simp
  from sz True have "seed 0 0 (initial g) = Inl (IndexError, initial g)"
    by (simp add: seed_def is_white_def px_get_empty_row initial_def)
  then have "seed_borders (initial g) = Inl (IndexError, initial g)"
    using w sz by (simp add: seed_borders_def initial_def upt_conv_Cons seed_column_def)
  then show ?thesis
    by (simp add: remove_outer_white_only_def) (simp add: initial_def sz)
next
  case False
  with deg have w: "w0 = 0" and h: "0 < h0" by simp_all
  from sz w have "seed 0 0 (initial g) = Inl (IndexError, initial g)"
    by (simp add: seed_def is_white_def px_get_empty_column initial_def)
  then have "seed_borders (initial g) = Inl (IndexError, initial g)"
    using w h sz by (simp add: seed_borders_def initial_def upt_conv_Cons seed_row_def)
  then show ?thesis
    by (simp add: remove_outer_white_only_def) (simp add: initial_def sz)
qed

lemma remove_empty:
  assumes sz: "isize g = (0, 0)"
  shows "remove_outer_white_only g = Inr g"
proof -
  have "seed_borders (initial g) = Inr (initial g)"
    by (simp add: seed_borders_def initial_def sz)
  moreover have "bfs (initial g) = Inr (initial g)"
    by (subst bfs.simps) (simp add: initial_def sz)
  ultimately show ?thesis
    by (simp add: remove_outer_white_only_def) (simp add: initial_def sz)
qed

lemma final_cases:
  obtains (returns) g' where "remove_outer_white_only g = Inr g'" "final (remove_outer_white_only g) = g'"
      "frame g g'" "\<forall>c. pixels g' c \<noteq> pixels g c \<longrightarrow> connected g c"
      "\<forall>c. on_border g c \<and> white g c \<longrightarrow> alpha (pixels g' c) = 0"
  | (raises) "remove_outer_white_only g = Inl (IndexError, g)" "final (remove_outer_white_only g) = g"
      "\<forall>c. \<not> in_image g c"
proof -
  obtain w0 h0 where sz: "isize g = (w0, h0)" by (cases "isize g")
  consider "0 < w0 \<and> 0 < h0" | "w0 = 0 \<and> h0 = 0" | "(w0 = 0) \<noteq> (h0 = 0)" by arith
  then show ?thesis
  proof cases
    case 1
    with remove_ok [OF sz] returns show ?thesis
      by (auto simp: final_def)
  next
    case 2
    with sz have "remove_outer_white_only g = Inr g" by (simp add: remove_empty)
    moreover from 2 sz have "\<not> on_border g c" for c
      by (simp add: on_border_def in_image_def split: prod.splits)
    ultimately show ?thesis
      using returns [of g] by (simp add: final_def frame_refl)
  next
    case 3
    from remove_degenerate [OF sz 3] have "remove_outer_white_only g = Inl (IndexError, g)" .
    moreover from 3 sz have "\<not> in_image g c" for c
      by (auto simp: in_image_def split: prod.splits)
    ultimately show ?thesis
      using raises by (simp add: final_def)
  qed
qed


section \<open>Background synthesis\<close>

definition W :: nat where
  "W = 1024"

definition H :: nat where
  "H = 1024"

definition BASE_COLOR :: rgba where
  "BASE_COLOR = (239, 170, 58, 255)"

text \<open>An image of mode \<open>L\<close>: one byte per pixel.\<close>

record mask =
  msize :: "nat \<times> nat"
  mvalues :: "coord \<Rightarrow> 8 word"

text \<open>\<open>Image.new("RGBA", size, colour)\<close>.\<close>

definition Image_new :: "nat \<times> nat \<Rightarrow> rgba \<Rightarrow> image" where
  "Image_new sz colour = \<lparr>isize = sz, pixels = (\<lambda>c. colour)\<rparr>"

text \<open>
  \<open>int(v)\<close> on a float truncates towards zero. Floats are read as exact reals in this
  section. The six products of the tints are 203.15, 144.5, 49.3, 262.9, 187 and 63.8:
  five are at least 0.1 away from an integer, and the double of \<open>170 * 1.10\<close> is
  \<open>187.00000000000003\<close>, so the doubles truncate to the same integers.
\<close>

definition py_int :: "real \<Rightarrow> int" where
  "py_int v = (if 0 \<le> v then \<lfloor>v\<rfloor> else \<lceil>v\<rceil>)"

text \<open>The local function \<open>clamp\<close>, and the two tints computed with it.\<close>

definition clamp :: "real \<Rightarrow> int" where
  "clamp v = max 0 (min 255 (py_int v))"

definition dark :: rgba where
  "dark = (word_of_int (clamp (239 * 0.85)), word_of_int (clamp (170 * 0.85)),
           word_of_int (clamp (58 * 0.85)), 255)"

definition light :: rgba where
  "light = (word_of_int (clamp (239 * 1.10)), word_of_int (clamp (170 * 1.10)),
            word_of_int (clamp (58 * 1.10)), 255)"

text \<open>\<open>mask.point(lut)\<close> maps every value through a table; \<open>ImageOps.invert\<close> on mode \<open>L\<close>.\<close>

definition point :: "(8 word \<Rightarrow> 8 word) \<Rightarrow> mask \<Rightarrow> mask" where
  "point lut m = m\<lparr>mvalues := (\<lambda>c. lut (mvalues m c))\<rparr>"

definition invert :: "mask \<Rightarrow> mask" where
  "invert m = m\<lparr>mvalues := (\<lambda>c. 255 - mvalues m c)\<rparr>"

text \<open>
  \<open>Image.composite(image1, image2, mask)\<close> copies \<open>image2\<close> and pastes \<open>image1\<close> through
  the mask: the imaging library blends every channel, alpha included, with its rounded
  division by 255, and refuses images of different sizes.
\<close>

definition blend8 :: "8 word \<Rightarrow> 8 word \<Rightarrow> 8 word \<Rightarrow> 8 word" where
  "blend8 m in1 in2 =
     (let tmp = unat in1 * (255 - unat m) + unat in2 * unat m + 128
      in of_nat ((tmp div 256 + tmp) div 256))"

definition blend_px :: "8 word \<Rightarrow> rgba \<Rightarrow> rgba \<Rightarrow> rgba" where
  "blend_px m p1 p2 =
     (case p1 of (r1, g1, b1, a1) \<Rightarrow> case p2 of (r2, g2, b2, a2) \<Rightarrow>
        (blend8 m r1 r2, blend8 m g1 g2, blend8 m b1 b2, blend8 m a1 a2))"

definition composite :: "image \<Rightarrow> image \<Rightarrow> mask \<Rightarrow> error + image" where
  "composite image1 image2 m =
     (if isize image1 = isize image2 \<and> msize m = isize image1
      then Inr (image2\<lparr>pixels := (\<lambda>c. blend_px (mvalues m c) (pixels image2 c) (pixels image1 c))\<rparr>)
      else Inl ValueError)"

text \<open>
  \<open>build_sandstone_background\<close>. The blurred noise field is random: its values are a
  parameter, its size is the \<open>(W, H)\<close> that \<open>effect_noise\<close> is called with.
\<close>

definition build_sandstone_background :: "(coord \<Rightarrow> 8 word) \<Rightarrow> error + image" where
  "build_sandstone_background field =
     (let bg = Image_new (W, H) BASE_COLOR;
          noise = \<lparr>msize = (W, H), mvalues = field\<rparr>
      in case composite (Image_new (W, H) dark) bg
                (point (\<lambda>p. word_of_int (py_int (real (unat p) * 0.30))) noise) of
           Inl e \<Rightarrow> Inl e
         | Inr tex \<Rightarrow>
             composite (Image_new (W, H) light) tex
               (point (\<lambda>p. word_of_int (py_int (real (unat p) * 0.15))) (invert noise)))"

section \<open>Composition\<close>

text \<open>
  The trim-and-scale arithmetic of \<open>compose\<close>. These are float computations: \<open>rnd\<close> is
  the rounding of a real to a double, applied to the literal \<open>0.06\<close> and to every product and
  quotient; integers convert exactly. \<open>pad = int(W*0.06)\<close>; \<open>fit_size\<close> is the size
  passed to \<open>resize\<close>, and a zero width or height raises in the division.
\<close>

definition pad :: "(real \<Rightarrow> real) \<Rightarrow> int" where
  "pad rnd = py_int (rnd (real W * rnd 0.06))"

definition fit_size :: "(real \<Rightarrow> real) \<Rightarrow> nat \<times> nat \<Rightarrow> error + (int \<times> int)" where
  "fit_size rnd sz =
     (case sz of (gw, gh) \<Rightarrow>
        let max_w = int W - 2 * pad rnd;
            max_h = int H - 2 * pad rnd
        in if gw = 0 \<or> gh = 0 then Inl ZeroDivisionError
           else
             let s = min (rnd (real_of_int max_w / real gw)) (rnd (real_of_int max_h / real gh))
             in Inr (max 1 (py_int (rnd (real gw * s))), max 1 (py_int (rnd (real gh * s)))))"















section \<open>Properties of the transparency removal\<close>

subsection \<open>Sample images\<close>

text \<open>
  \<open>ring_image\<close>: 3 by 3, opaque black but for an opaque white corner and an opaque white
  centre. \<open>dark_image\<close>: 2 by 2, one opaque dark colour. \<open>corner_image\<close>: 2 by 2, opaque
  black but for an opaque white top-left corner.
\<close>

definition ring_image :: image where
  "ring_image =
     \<lparr>isize = (3, 3),
      pixels = (\<lambda>c. if c = (0, 0) \<or> c = (1, 1) then (255, 255, 255, 255) else (0, 0, 0, 255))\<rparr>"

definition dark_image :: image where
  "dark_image = \<lparr>isize = (2, 2), pixels = (\<lambda>c. (10, 20, 30, 255))\<rparr>"

definition corner_image :: image where
  "corner_image =
     \<lparr>isize = (2, 2),
      pixels = (\<lambda>c. if c = (0, 0) then (255, 255, 255, 255) else (0, 0, 0, 255))\<rparr>"

subsection \<open>Auxiliary facts\<close>

lemma on_border_in_image: "on_border g c \<Longrightarrow> in_image g c"
  by (auto simp: on_border_def split: prod.splits)

lemma in_image_positive: "in_image g c \<Longrightarrow> \<exists>w0 h0. isize g = (w0, h0) \<and> 0 < w0 \<and> 0 < h0"
  by (cases "isize g") (auto simp: in_image_def split: prod.splits)

lemma white_alpha: "white g c \<Longrightarrow> alpha (pixels g c) \<noteq> 0"
  by (cases "pixels g c") (auto simp: white_def white_px_def alpha_def)

lemma rgb_clear: "rgb (clear p) = rgb p"
  by (cases p) (simp add: rgb_def clear_def)

lemma frame_rgb: "frame g g' \<Longrightarrow> rgb (pixels g' c) = rgb (pixels g c)"
  unfolding frame_def by (metis rgb_clear)

lemma border_path_head: "border_path g (c # p) \<Longrightarrow> in_image g c \<and> white g c"
  by (cases p) (auto dest: on_border_in_image)

lemma size_cases:
  obtains (proper) w0 h0 where "isize g = (w0, h0)" "0 < w0" "0 < h0"
  | (empty) "isize g = (0, 0)"
  | (degenerate) w0 h0 where "isize g = (w0, h0)" "(w0 = 0) \<noteq> (h0 = 0)"
proof -
  obtain w0 h0 where sz: "isize g = (w0, h0)" by (cases "isize g")
  consider "0 < w0 \<and> 0 < h0" | "w0 = 0 \<and> h0 = 0" | "(w0 = 0) \<noteq> (h0 = 0)" by arith
  then show ?thesis
    using sz proper empty degenerate by cases auto
qed

lemma replicate_2: "replicate 2 x = [x, x]"
  by (simp add: numeral_2_eq_2)

lemma seeds_corner: "seed_borders (initial corner_image) = Inr \<lparr>glyph = corner_image, visited = [[True, False], [False, False]], q = [(0,0), (0,0)]\<rparr>"
  by (simp add: seed_borders_def initial_def corner_image_def upt_conv_Cons seed_column_def seed_row_def seed_def
     is_white_def px_get_def px_index_def white_px_def TH_def vis_set_def py_idx_def replicate_2)

subsection \<open>The claims\<close>

text \<open>
  C1. For every RGBA image and every pixel on its border that satisfies the white
  predicate (alpha above zero, red, green and blue at least 245),
  \<open>remove_outer_white_only\<close> returns and that pixel's alpha is zero afterwards.
\<close>

theorem border_white_pixel_cleared:
  assumes "on_border g c" and "white g c"
  shows "\<exists>g'. remove_outer_white_only g = Inr g' \<and> alpha (pixels g' c) = 0"
proof -
  from assms(1) obtain w0 h0 where "isize g = (w0, h0)" "0 < w0" "0 < h0"
    using in_image_positive on_border_in_image by blast
  from remove_ok [OF this] assms show ?thesis by blast
qed

theorem border_white_pixel_cleared_witness:
  "on_border ring_image (0, 0) \<and> white ring_image (0, 0) \<and>
   (\<exists>g'. remove_outer_white_only ring_image = Inr g' \<and> alpha (pixels g' (0, 0)) = 0)"
proof -
  have b: "on_border ring_image (0, 0)"
    by (simp add: on_border_def in_image_def ring_image_def)
  have w: "white ring_image (0, 0)"
    by (simp add: white_def white_px_def TH_def ring_image_def)
  from border_white_pixel_cleared [OF b w] b w show ?thesis by simp
qed

text \<open>
  C2. For every RGBA image and every white pixel of it from which no 4-connected path of
  white pixels leads to the border (a white pixel on the border is such a path by itself,
  so these pixels are interior), \<open>remove_outer_white_only\<close> returns and leaves the pixel
  as it was, with its non-zero alpha.
\<close>

theorem enclosed_white_pixel_kept:
  assumes "in_image g c" and "white g c" and "\<forall>p. \<not> border_path g (c # p)"
  shows "\<exists>g'. remove_outer_white_only g = Inr g' \<and> pixels g' c = pixels g c \<and>
               alpha (pixels g' c) \<noteq> 0"
proof -
  from assms(1) obtain w0 h0 where "isize g = (w0, h0)" "0 < w0" "0 < h0"
    using in_image_positive by blast
  from remove_ok [OF this] obtain g' where
    g': "remove_outer_white_only g = Inr g'"
        "\<forall>d. pixels g' d \<noteq> pixels g d \<longrightarrow> connected g d"
    by blast
  from assms(3) have "\<not> connected g c" by (simp add: connected_def)
  with g'(2) have "pixels g' c = pixels g c" by blast
  with g'(1) white_alpha [OF assms(2)] show ?thesis by simp
qed

theorem enclosed_white_pixel_kept_witness:
  "in_image ring_image (1, 1) \<and> white ring_image (1, 1) \<and>
   (\<forall>p. \<not> border_path ring_image ((1, 1) # p)) \<and>
   (\<exists>g'. remove_outer_white_only ring_image = Inr g' \<and>
         pixels g' (1, 1) = pixels ring_image (1, 1) \<and> alpha (pixels g' (1, 1)) \<noteq> 0)"
proof -
  have i: "in_image ring_image (1, 1)"
    by (simp add: in_image_def ring_image_def)
  have w: "white ring_image (1, 1)"
    by (simp add: white_def white_px_def TH_def ring_image_def)
  have n: "\<forall>p. \<not> border_path ring_image ((1, 1) # p)"
  proof (intro allI notI)
    fix p
    assume bp: "border_path ring_image ((1, 1) # p)"
    show False
    proof (cases p)
      case Nil
      with bp show False
        by (simp add: on_border_def in_image_def ring_image_def)
    next
      case (Cons d p')
      with bp have "adjacent (1, 1) d" and "white ring_image d"
        by (auto dest: border_path_head)
      then show False
        by (cases d) (auto simp: adjacent_def white_def white_px_def TH_def ring_image_def)
    qed
  qed
  from enclosed_white_pixel_kept [OF i w n] i w n show ?thesis by simp
qed

text \<open>
  C3. For every RGBA image none of whose pixels satisfies the white predicate, the image
  after \<open>remove_outer_white_only\<close> is identical to the image before: same size, same
  value at every pixel.
\<close>

theorem non_white_image_unchanged:
  assumes "\<forall>c. in_image g c \<longrightarrow> \<not> white g c"
  shows "final (remove_outer_white_only g) = g"
proof (cases g rule: size_cases)
  case (proper w0 h0)
  moreover from assms have "\<not> white g c" if "on_border g c" for c
    using that on_border_in_image by blast
  ultimately have "remove_outer_white_only g = Inr g"
    by (rule remove_no_seed)
  then show ?thesis by (simp add: final_def)
next
  case empty
  then show ?thesis by (simp add: remove_empty final_def)
next
  case (degenerate w0 h0)
  then show ?thesis by (simp add: remove_degenerate final_def)
qed

theorem non_white_image_unchanged_witness:
  "\<not> (\<exists>c. in_image dark_image c \<and> white dark_image c) \<and>
   final (remove_outer_white_only dark_image) = dark_image"
proof -
  have h: "\<forall>c. in_image dark_image c \<longrightarrow> \<not> white dark_image c"
    by (simp add: white_def white_px_def TH_def dark_image_def)
  from non_white_image_unchanged [OF h] h show ?thesis by simp
qed

text \<open>
  C4. For every RGBA image and every pixel, \<open>remove_outer_white_only\<close> keeps the size, never
  changes the red, green or blue channel, and leaves the alpha channel as it was or sets
  it to zero.
\<close>

theorem only_alpha_cleared:
  "isize (final (remove_outer_white_only g)) = isize g \<and>
   rgb (pixels (final (remove_outer_white_only g)) c) = rgb (pixels g c) \<and>
   (alpha (pixels (final (remove_outer_white_only g)) c) = alpha (pixels g c) \<or>
    alpha (pixels (final (remove_outer_white_only g)) c) = 0)"
proof (cases g rule: final_cases)
  case (returns g')
  from returns(3) have "pixels g' c = pixels g c \<or> pixels g' c = clear (pixels g c)"
    unfolding frame_def by blast
  then have "alpha (pixels g' c) = alpha (pixels g c) \<or> alpha (pixels g' c) = 0"
    by (auto simp: alpha_clear)
  with returns(2,3) show ?thesis
    by (simp add: frame_rgb) (simp add: frame_def)
next
  case raises
  then show ?thesis by simp
qed

text \<open>
  C5. The traversal ends for every image (\<open>bfs\<close> and \<open>bfs_trace\<close> are total), but a
  coordinate can be dequeued more than once: the two seeding loops both append a white
  corner, since they mark \<open>visited\<close> without testing it. On \<open>corner_image\<close> the loop
  dequeues \<open>(0, 0)\<close> twice.
\<close>

theorem corner_dequeued_twice:
  "dequeued corner_image = [(0, 0), (0, 0)] \<and> \<not> distinct (dequeued corner_image)"
proof -
  have "dequeued corner_image =
      bfs_trace \<lparr>glyph = corner_image, visited = [[True, False], [False, False]], q = [(0, 0), (0, 0)]\<rparr>"
    by (simp add: dequeued_def seeds_corner)
  also have "\<dots> = [(0, 0), (0, 0)]"
    by (simp add: bfs_trace.simps process_def neighbour_def corner_image_def
        is_white_def px_get_def px_set_def px_index_def white_px_def TH_def vis_set_def vis_get_def py_idx_def)
  finally show ?thesis by simp
qed

text \<open>
  C10. \<open>remove_outer_white_only\<close> is idempotent: the image after a second call is the image
  after the first.
\<close>

theorem remove_idempotent:
  "final (remove_outer_white_only (final (remove_outer_white_only g))) =
   final (remove_outer_white_only g)"
proof (cases g rule: final_cases)
  case (returns g')
  show ?thesis
  proof (cases g' rule: size_cases)
    case (proper w0 h0)
    have "\<not> white g' c" if "on_border g' c" for c
    proof
      assume w: "white g' c"
      from that returns(3) have "on_border g c"
        by (simp add: on_border_def in_image_def frame_def)
      moreover from w returns(3) have "white g c" by (rule frame_white [rotated])
      ultimately have "alpha (pixels g' c) = 0" using returns(5) by blast
      with white_alpha [OF w] show False by simp
    qed
    with proper have "remove_outer_white_only g' = Inr g'"
      by (rule remove_no_seed)
    with returns(2) show ?thesis by (simp add: final_def)
  next
    case empty
    with returns(2) show ?thesis by (simp add: remove_empty final_def)
  next
    case (degenerate w0 h0)
    with returns(2) show ?thesis by (simp add: remove_degenerate final_def)
  qed
next
  case raises
  then show ?thesis by simp
qed

section \<open>Properties of the background synthesis\<close>

text \<open>
  The weights of the two composites at a pixel whose noise value is \<open>n\<close>: the dark tint
  is pasted through \<open>noise.point(lambda p: int(p*0.30))\<close>, the light tint through
  \<open>ImageOps.invert(noise).point(lambda p: int(p*0.15))\<close>. \<open>background_pixel\<close> is a pixel
  of the canvas that \<open>build_sandstone_background\<close> returns; \<open>high_noise\<close> and \<open>low_noise\<close>
  are the constant fields of the largest and the smallest noise value.
\<close>

definition dark_weight :: "8 word \<Rightarrow> 8 word" where
  "dark_weight n = word_of_int (py_int (real (unat n) * 0.30))"

definition light_weight :: "8 word \<Rightarrow> 8 word" where
  "light_weight n = word_of_int (py_int (real (unat (255 - n)) * 0.15))"

definition background_pixel :: "(coord \<Rightarrow> 8 word) \<Rightarrow> coord \<Rightarrow> rgba option" where
  "background_pixel field c =
     (case build_sandstone_background field of
        Inl e \<Rightarrow> None
      | Inr img \<Rightarrow> Some (pixels img c))"

definition high_noise :: "coord \<Rightarrow> 8 word" where
  "high_noise = (\<lambda>c. 255)"

definition low_noise :: "coord \<Rightarrow> 8 word" where
  "low_noise = (\<lambda>c. 0)"

lemma light_value: "light = (255, 187, 63, 255)"
  by (simp add: light_def clamp_def py_int_def)

lemma dark_value: "dark = (203, 144, 49, 255)"
  by (simp add: dark_def clamp_def py_int_def)

lemma blend8_opaque: "blend8 m 255 255 = 255"
proof -
  have "unat m < 256" using unsigned_less [of m, where ?'a = nat] by simp
  then have "255 * (255 - unat m) + 255 * unat m + 128 = 65153" by arith
  then show ?thesis by (simp add: blend8_def)
qed

lemma alpha_blend_px:
  "alpha p1 = 255 \<Longrightarrow> alpha p2 = 255 \<Longrightarrow> alpha (blend_px m p1 p2) = 255"
  by (cases p1, cases p2) (simp add: blend_px_def alpha_def blend8_opaque)

lemma alpha_tuple: "alpha (r, g, b, a) = a"
  by (simp add: alpha_def)

lemma composite_opaque:
  assumes "isize image1 = isize image2" and "msize m = isize image1"
    and "\<forall>c. alpha (pixels image1 c) = 255" and "\<forall>c. alpha (pixels image2 c) = 255"
  shows "\<exists>img. composite image1 image2 m = Inr img \<and> isize img = isize image2 \<and>
               (\<forall>c. alpha (pixels img c) = 255)"
  using assms by (simp add: composite_def alpha_blend_px)

lemma background_pixel_blend:
  "background_pixel field c =
     Some (blend_px (light_weight (field c))
             (blend_px (dark_weight (field c)) BASE_COLOR dark) light)"
  by (simp add: background_pixel_def build_sandstone_background_def composite_def Image_new_def
      point_def invert_def light_weight_def dark_weight_def)

lemma unat_complement: "unat (255 - n :: 8 word) = 255 - unat n"
proof -
  have "unat n < 256" using unsigned_less [of n, where ?'a = nat] by simp
  then have "n \<le> 255" by (simp add: word_le_nat_alt)
  then show ?thesis by (simp add: unat_sub)
qed

lemma unat_light_weight: "unat (light_weight n) = (255 - unat n) * 15 div 100"
proof -
  let ?k = "255 - unat n"
  have "real ?k * 0.15 = real (?k * 15) / real 100" by simp
  then have "\<lfloor>real ?k * 0.15\<rfloor> = int (?k * 15 div 100)"
    by (simp only: floor_divide_of_nat_eq)
  moreover have "0 \<le> real ?k * 0.15" by simp
  ultimately have p: "py_int (real ?k * 0.15) = int (?k * 15 div 100)"
    by (simp only: py_int_def if_True)
  have "?k * 15 div 100 < 256" by simp
  then show ?thesis
    by (simp only: light_weight_def unat_complement p) (simp add: unat_of_nat)
qed

lemma light_weight_antitone:
  "unat n \<le> unat n' \<Longrightarrow> unat (light_weight n') \<le> unat (light_weight n)"
  by (simp add: unat_light_weight div_le_mono)

lemma light_weight_0: "light_weight 0 = 38"
  by (simp add: light_weight_def py_int_def)

lemma light_weight_255: "light_weight 255 = 0"
  by (simp add: light_weight_def py_int_def)

lemma pixel_high: "background_pixel high_noise (0, 0) = Some (228, 162, 55, 255)"
  by (simp add: background_pixel_blend high_noise_def light_weight_255 dark_weight_def py_int_def
      blend_px_def blend8_def BASE_COLOR_def dark_value light_value)

lemma pixel_low: "background_pixel low_noise (0, 0) = Some (241, 173, 59, 255)"
  by (simp add: background_pixel_blend low_noise_def light_weight_0 dark_weight_def py_int_def
      blend_px_def blend8_def BASE_COLOR_def dark_value light_value)

text \<open>
  C8, as stated: the background is lightened in high-noise regions, with a light tint
  equal to each channel of the base colour multiplied by 1.10. Both parts fail. The red
  channel of the tint is 255, not \<open>239 * 1.10 = 262.9\<close>. And where the noise is highest,
  the light tint has weight 0: the pixel is the base colour blended with the dark tint
  only, darker than the base colour in every channel.
\<close>

theorem light_tint_claim_fails:
  "real (unat (fst light)) \<noteq> real (unat (fst BASE_COLOR)) * 1.10 \<and>
   light_weight 255 = 0 \<and>
   BASE_COLOR = (239, 170, 58, 255) \<and>
   background_pixel high_noise (0, 0) = Some (228, 162, 55, 255)"
  by (simp add: light_value BASE_COLOR_def light_weight_255 pixel_high)

text \<open>
  C8, amended. Background synthesis lightens the base colour in low-noise regions: every
  pixel is the base colour blended with the dark tint and then with the light tint, the
  light tint through the inverted noise, with a weight \<open>int((255 - n) * 0.15)\<close> out of 255
  that falls as the noise \<open>n\<close> rises, from 38 at noise 0 (where the pixel is lighter than
  the base colour in every channel) to 0 at noise 255. Each channel of the light tint is
  the base colour's channel multiplied by 1.10, truncated to an integer and clamped to at
  most 255, that is \<open>(255, 187, 63)\<close> with alpha 255; only the green channel equals the
  exact product.
\<close>

theorem light_tint_value:
  "light = (255, 187, 63, 255) \<and>
   (case BASE_COLOR of (r, g, b, a) \<Rightarrow>
      light = (word_of_int (min 255 \<lfloor>real (unat r) * 1.10\<rfloor>),
               word_of_int (min 255 \<lfloor>real (unat g) * 1.10\<rfloor>),
               word_of_int (min 255 \<lfloor>real (unat b) * 1.10\<rfloor>), 255) \<and>
      real (unat (fst light)) \<noteq> real (unat r) * 1.10 \<and>
      real (unat (fst (snd light))) = real (unat g) * 1.10 \<and>
      real (unat (fst (snd (snd light)))) \<noteq> real (unat b) * 1.10) \<and>
   background_pixel field c =
     Some (blend_px (light_weight (field c))
             (blend_px (dark_weight (field c)) BASE_COLOR dark) light) \<and>
   (unat n \<le> unat n' \<longrightarrow> unat (light_weight n') \<le> unat (light_weight n)) \<and>
   light_weight 0 = 38 \<and> light_weight 255 = 0 \<and>
   background_pixel low_noise (0, 0) = Some (241, 173, 59, 255)"
proof -
  have tint: "case BASE_COLOR of (r, g, b, a) \<Rightarrow>
      light = (word_of_int (min 255 \<lfloor>real (unat r) * 1.10\<rfloor>),
               word_of_int (min 255 \<lfloor>real (unat g) * 1.10\<rfloor>),
               word_of_int (min 255 \<lfloor>real (unat b) * 1.10\<rfloor>), 255) \<and>
      real (unat (fst light)) \<noteq> real (unat r) * 1.10 \<and>
      real (unat (fst (snd light))) = real (unat g) * 1.10 \<and>
      real (unat (fst (snd (snd light)))) \<noteq> real (unat b) * 1.10"
    by (simp add: light_value BASE_COLOR_def)
  from light_value tint background_pixel_blend [of field c] light_weight_antitone [of n n']
    light_weight_0 light_weight_255 pixel_low
  show ?thesis by blast
qed

theorem light_tint_value_witness:
  "unat (0 :: 8 word) \<le> unat (255 :: 8 word) \<and>
   unat (light_weight 255) \<le> unat (light_weight 0) \<and>
   light = (255, 187, 63, 255) \<and>
   background_pixel low_noise (0, 0) =
     Some (blend_px (light_weight (low_noise (0, 0)))
             (blend_px (dark_weight (low_noise (0, 0))) BASE_COLOR dark) light) \<and>
   background_pixel low_noise (0, 0) = Some (241, 173, 59, 255)"
proof -
  have h: "unat (0 :: 8 word) \<le> unat (255 :: 8 word)" by simp
  from light_tint_value [of low_noise "(0, 0)" 0 255] h show ?thesis by blast
qed

lemma background_returns:
  "\<exists>img. build_sandstone_background field = Inr img \<and> isize img = (1024, 1024) \<and>
         (\<forall>c. alpha (pixels img c) = 255)"
proof -
  let ?noise = "\<lparr>msize = (W, H), mvalues = field\<rparr>"
  let ?m1 = "point (\<lambda>p. word_of_int (py_int (real (unat p) * 0.30))) ?noise"
  let ?m2 = "point (\<lambda>p. word_of_int (py_int (real (unat p) * 0.15))) (invert ?noise)"
  have "\<exists>tex. composite (Image_new (W, H) dark) (Image_new (W, H) BASE_COLOR) ?m1 = Inr tex \<and>
          isize tex = isize (Image_new (W, H) BASE_COLOR) \<and> (\<forall>c. alpha (pixels tex c) = 255)"
    by (rule composite_opaque)
       (simp_all add: Image_new_def point_def dark_def BASE_COLOR_def alpha_tuple)
  then obtain tex where tex: "composite (Image_new (W, H) dark) (Image_new (W, H) BASE_COLOR) ?m1 = Inr tex"
    "isize tex = (W, H)" "\<forall>c. alpha (pixels tex c) = 255"
    by (auto simp: Image_new_def)
  have "\<exists>img. composite (Image_new (W, H) light) tex ?m2 = Inr img \<and>
          isize img = isize tex \<and> (\<forall>c. alpha (pixels img c) = 255)"
    by (rule composite_opaque)
       (simp_all add: Image_new_def point_def invert_def light_def alpha_tuple tex)
  with tex show ?thesis
    by (auto simp: build_sandstone_background_def W_def H_def)
qed

text \<open>
  C9. Whatever the noise field, \<open>build_sandstone_background\<close> returns an image of
  1024 by 1024 pixels whose alpha is 255 everywhere.
\<close>

theorem background_size_and_opacity:
  "\<exists>img. build_sandstone_background field = Inr img \<and> isize img = (1024, 1024) \<and>
         (\<forall>c. alpha (pixels img c) = 255)"
  by (rule background_returns)

section \<open>Properties of the composition\<close>

text \<open>
  Double arithmetic rounds to nearest: on the range of values the scaling meets, the
  result of an operation differs from the exact one by at most the unit roundoff, 2 to
  the power -53, relatively. \<open>rounding rnd\<close> says so of a rounding function.
\<close>

definition unit_roundoff :: real where
  "unit_roundoff = 1 / 2 ^ 53"

definition rounding :: "(real \<Rightarrow> real) \<Rightarrow> bool" where
  "rounding rnd = (\<forall>x. 1 / 100 \<le> x \<and> x \<le> 1000 \<longrightarrow> \<bar>rnd x - x\<bar> \<le> unit_roundoff * x)"

subsection \<open>Sample library and worlds\<close>





subsection \<open>Auxiliary facts\<close>

lemma rounding_between:
  assumes "rounding rnd" and "1 / 100 \<le> lo" and "lo \<le> x" and "x \<le> hi" and "hi \<le> 1000"
  shows "lo * (1 - unit_roundoff) \<le> rnd x" and "rnd x \<le> hi * (1 + unit_roundoff)"
proof -
  have u: "0 \<le> unit_roundoff" "unit_roundoff \<le> 1" by (simp_all add: unit_roundoff_def)
  from assms have x: "1 / 100 \<le> x" "x \<le> 1000" by simp_all
  with assms(1) have "\<bar>rnd x - x\<bar> \<le> unit_roundoff * x" by (simp add: rounding_def)
  then have b: "x * (1 - unit_roundoff) \<le> rnd x" "rnd x \<le> x * (1 + unit_roundoff)"
    by (simp_all add: algebra_simps abs_le_iff)
  have "lo * (1 - unit_roundoff) \<le> x * (1 - unit_roundoff)"
    using assms(3) u by (intro mult_right_mono) simp_all
  with b(1) show "lo * (1 - unit_roundoff) \<le> rnd x" by simp
  have "x * (1 + unit_roundoff) \<le> hi * (1 + unit_roundoff)"
    using assms(4) u by (intro mult_right_mono) simp_all
  with b(2) show "rnd x \<le> hi * (1 + unit_roundoff)" by simp
qed

lemma pad_value:
  assumes "rounding rnd"
  shows "pad rnd = 61"
proof -
  let ?u = unit_roundoff
  have a: "0.06 * (1 - ?u) \<le> rnd 0.06" "rnd 0.06 \<le> 0.06 * (1 + ?u)"
    using rounding_between [OF assms, of "0.06" "0.06" "0.06"] by simp_all
  have lo: "(1 / 100 :: real) \<le> 1024 * (0.06 * (1 - ?u))" by (simp add: unit_roundoff_def)
  have hi: "1024 * (0.06 * (1 + ?u)) \<le> (1000::real)" by (simp add: unit_roundoff_def)
  have b: "1024 * (0.06 * (1 - ?u)) * (1 - ?u) \<le> rnd (real W * rnd 0.06)"
          "rnd (real W * rnd 0.06) \<le> 1024 * (0.06 * (1 + ?u)) * (1 + ?u)"
    using rounding_between [OF assms lo _ _ hi, of "real W * rnd 0.06"] a
    by (simp_all add: W_def)
  have "(61::real) \<le> 1024 * (0.06 * (1 - ?u)) * (1 - ?u)"
    by (simp add: unit_roundoff_def)
  moreover have "1024 * (0.06 * (1 + ?u)) * (1 + ?u) < (62::real)"
    by (simp add: unit_roundoff_def)
  ultimately have "61 \<le> rnd (real W * rnd 0.06)" "rnd (real W * rnd 0.06) < 62"
    using b by linarith+
  then show ?thesis
    by (simp add: pad_def py_int_def floor_eq_iff)
qed

lemma scale_factor:
  assumes r: "rounding rnd" and pos: "0 < gw" "0 < gh" and small: "gw \<le> 902" "gh \<le> 902"
  defines "b \<equiv> max (real gw) (real gh)"
  defines "s \<equiv> min (rnd (902 / real gw)) (rnd (902 / real gh))"
  shows "902 / b * (1 - unit_roundoff) \<le> s" and "s \<le> 902 / b * (1 + unit_roundoff)"
proof -
  have b: "0 < b" "real gw \<le> b" "real gh \<le> b" "b \<le> 902" "1 \<le> b"
    using pos small by (simp_all add: b_def)
  have lo: "1 / 100 \<le> 902 / b" using b by (simp add: le_divide_eq)
  have h: "902 / b \<le> 902 / real gw" "902 / b \<le> 902 / real gh"
    using b pos by (simp_all add: frac_le)
  have hi: "902 / real gw \<le> 1000" "902 / real gh \<le> 1000" "902 / b \<le> 1000"
    using pos b by (simp_all add: divide_le_eq)
  have "902 / b * (1 - unit_roundoff) \<le> rnd (902 / real gw)"
    by (rule rounding_between(1) [OF r lo h(1) order_refl hi(1)])
  moreover have "902 / b * (1 - unit_roundoff) \<le> rnd (902 / real gh)"
    by (rule rounding_between(1) [OF r lo h(2) order_refl hi(2)])
  ultimately show "902 / b * (1 - unit_roundoff) \<le> s" by (simp add: s_def)
  have "rnd (902 / b) \<le> 902 / b * (1 + unit_roundoff)"
    by (rule rounding_between(2) [OF r lo order_refl order_refl hi(3)])
  moreover have "s \<le> rnd (902 / b)"
    by (cases "real gw \<le> real gh") (simp_all add: b_def s_def max_def)
  ultimately show "s \<le> 902 / b * (1 + unit_roundoff)" by simp
qed

lemma scaled_larger:
  assumes r: "rounding rnd" and b: "0 < b"
    and s: "902 / b * (1 - unit_roundoff) \<le> s" "s \<le> 902 / b * (1 + unit_roundoff)"
  shows "py_int (rnd (b * s)) = 902 \<or> py_int (rnd (b * s)) = 901"
proof -
  let ?u = unit_roundoff
  have e: "b * (902 / b * k) = 902 * k" for k using b by simp
  have b0: "0 \<le> b" using b by simp
  have "b * (902 / b * (1 - ?u)) \<le> b * s" "b * s \<le> b * (902 / b * (1 + ?u))"
    by (rule mult_left_mono [OF s(1) b0], rule mult_left_mono [OF s(2) b0])
  then have bs: "902 * (1 - ?u) \<le> b * s" "b * s \<le> 902 * (1 + ?u)"
    unfolding e .
  have lo: "(1 / 100 :: real) \<le> 902 * (1 - ?u)" by (simp add: unit_roundoff_def)
  have hi: "902 * (1 + ?u) \<le> (1000::real)" by (simp add: unit_roundoff_def)
  from rounding_between [OF r lo bs hi]
  have "902 * (1 - ?u) * (1 - ?u) \<le> rnd (b * s)" "rnd (b * s) \<le> 902 * (1 + ?u) * (1 + ?u)" .
  moreover have "(901::real) \<le> 902 * (1 - ?u) * (1 - ?u)"
    by (simp add: unit_roundoff_def)
  moreover have "902 * (1 + ?u) * (1 + ?u) < (903::real)"
    by (simp add: unit_roundoff_def)
  ultimately have v: "901 \<le> rnd (b * s)" "rnd (b * s) < 903" by linarith+
  then have f: "901 \<le> \<lfloor>rnd (b * s)\<rfloor>" "\<lfloor>rnd (b * s)\<rfloor> < 903"
    by (simp_all add: le_floor_iff floor_less_iff)
  from v have "py_int (rnd (b * s)) = \<lfloor>rnd (b * s)\<rfloor>" by (simp add: py_int_def)
  with f show ?thesis by arith
qed

lemma scaled_smaller:
  assumes r: "rounding rnd" and a: "1 \<le> a" "a \<le> b" "b \<le> 902"
    and s: "902 / b * (1 - unit_roundoff) \<le> s" "s \<le> 902 / b * (1 + unit_roundoff)"
  shows "max 1 (py_int (rnd (a * s))) \<le> 902"
proof -
  let ?u = unit_roundoff
  from a have b: "0 < b" by simp
  have u: "0 \<le> 1 - ?u" by (simp add: unit_roundoff_def)
  from a b have "1 \<le> 902 / b" by (simp add: le_divide_eq)
  then have "1 * (1 - ?u) \<le> 902 / b * (1 - ?u)" using u by (rule mult_right_mono)
  with s(1) have s1: "1 - ?u \<le> s" by simp
  with u have s0: "0 \<le> s" by simp
  have e: "b * (902 / b * k) = 902 * k" for k using b by simp
  have b0: "0 \<le> b" using b by simp
  have "b * s \<le> b * (902 / b * (1 + ?u))"
    by (rule mult_left_mono [OF s(2) b0])
  then have "b * s \<le> 902 * (1 + ?u)" unfolding e .
  moreover have "a * s \<le> b * s" using a s0 by (simp add: mult_right_mono)
  ultimately have up: "a * s \<le> 902 * (1 + ?u)" by simp
  have "1 * s \<le> a * s" using a(1) s0 by (rule mult_right_mono)
  with s1 have low: "1 - ?u \<le> a * s" by simp
  have lo: "(1 / 100 :: real) \<le> 1 - ?u" by (simp add: unit_roundoff_def)
  have hi: "902 * (1 + ?u) \<le> (1000::real)" by (simp add: unit_roundoff_def)
  from rounding_between [OF r lo low up hi]
  have "(1 - ?u) * (1 - ?u) \<le> rnd (a * s)" "rnd (a * s) \<le> 902 * (1 + ?u) * (1 + ?u)" .
  moreover have "(0::real) \<le> (1 - ?u) * (1 - ?u)" by simp
  moreover have "902 * (1 + ?u) * (1 + ?u) < (903::real)"
    by (simp add: unit_roundoff_def)
  ultimately have v: "0 \<le> rnd (a * s)" "rnd (a * s) < 903" by linarith+
  then have f: "\<lfloor>rnd (a * s)\<rfloor> < 903" by (simp add: floor_less_iff)
  from v have "py_int (rnd (a * s)) = \<lfloor>rnd (a * s)\<rfloor>" by (simp add: py_int_def)
  with f show ?thesis by arith
qed










subsection \<open>The claims\<close>




text \<open>
  C7. For a glyph whose trimmed size is at least 1 and at most 902 in both dimensions, the
  size passed to \<open>resize\<close> has its larger dimension equal to 902 or, by the rounding of
  the float arithmetic, to 901.
\<close>

theorem fit_size_larger_dimension:
  assumes r: "rounding rnd" and pos: "0 < gw" "0 < gh" and small: "gw \<le> 902" "gh \<le> 902"
  shows "\<exists>nw nh. fit_size rnd (gw, gh) = Inr (nw, nh) \<and> (max nw nh = 902 \<or> max nw nh = 901)"
proof -
  define s where "s = min (rnd (902 / real gw)) (rnd (902 / real gh))"
  define nw where "nw = max 1 (py_int (rnd (real gw * s)))"
  define nh where "nh = max 1 (py_int (rnd (real gh * s)))"
  have run: "fit_size rnd (gw, gh) = Inr (nw, nh)"
    using pos by (simp add: fit_size_def Let_def pad_value [OF r] W_def H_def s_def nw_def nh_def)
  note sf = scale_factor [OF r pos small, folded s_def]
  from pos small have g: "0 < real gw" "0 < real gh" "1 \<le> real gw" "1 \<le> real gh"
    "real gw \<le> 902" "real gh \<le> 902"
    by simp_all
  have "max nw nh = 902 \<or> max nw nh = 901"
  proof (cases "real gh \<le> real gw")
    case True
    then have m: "max (real gw) (real gh) = real gw" by simp
    from scaled_larger [OF r g(1) sf [unfolded m]]
      scaled_smaller [OF r g(4) True g(5) sf [unfolded m]]
    show ?thesis by (auto simp: nw_def nh_def)
  next
    case False
    then have le: "real gw \<le> real gh" by simp
    then have m: "max (real gw) (real gh) = real gh" by simp
    from scaled_larger [OF r g(2) sf [unfolded m]]
      scaled_smaller [OF r g(3) le g(6) sf [unfolded m]]
    show ?thesis by (auto simp: nw_def nh_def)
  qed
  with run show ?thesis by blast
qed

theorem fit_size_larger_dimension_witness:
  "rounding (\<lambda>x. x) \<and> (0::nat) < 100 \<and> (0::nat) < 50 \<and> (100::nat) \<le> 902 \<and> (50::nat) \<le> 902 \<and>
   (\<exists>nw nh. fit_size (\<lambda>x. x) (100, 50) = Inr (nw, nh) \<and> (max nw nh = 902 \<or> max nw nh = 901)) \<and>
   fit_size (\<lambda>x. x) (100, 50) = Inr (902, 451)"
proof -
  have r: "rounding (\<lambda>x. x)" by (simp add: rounding_def unit_roundoff_def)
  have v: "fit_size (\<lambda>x. x) (100, 50) = Inr (902, 451)"
    by (simp add: fit_size_def pad_def py_int_def W_def H_def)
  from fit_size_larger_dimension [OF r, of 100 50] r v show ?thesis by simp
qed

end
